theory Spec2Isabelle
  imports Main
begin

section \<open>Home-Security-Chatbot: the session cache of the chat server\<close>

text \<open>
  The server keeps one chat session per client address in the package variable
  \<open>chatSessions\<close> (a \<open>sync.Map\<close>), creates the shared provider client on first use, and
  runs a sweeper that deletes sessions idle for more than thirty minutes. The
  model follows the three functions \<open>handleChat\<close>, \<open>generateGeminiResponse\<close> and
  \<open>cleanupSessions\<close>: package variables are fields of a state record, the
  \<open>*ChatSession\<close> pointers are addresses into the list of allocated objects, and what
  the outside world answers to one request (the clock, the provider) is an argument
  of the call. A run takes requests and sweep cycles one at a time; the single
  accesses of a handler to the shared variables, which concurrent handlers
  interleave, are given on their own.
\<close>

subsection \<open>Go errors\<close>

text \<open>
  An error is either an opaque one carrying its text, or the value built by
  \<open>fmt.Errorf\<close> with the verb \<open>%w\<close>: the formatted text together with the wrapped
  error.
\<close>

datatype error = errorString string | wrapError string error

fun Error :: "error \<Rightarrow> string" where
  "Error (errorString s) = s"
| "Error (wrapError msg err) = msg"

fun Unwrap :: "error \<Rightarrow> error option" where
  "Unwrap (errorString s) = None"
| "Unwrap (wrapError msg err) = Some err"

definition Errorf :: "string \<Rightarrow> error" where
  "Errorf msg = errorString msg"

text \<open>\<open>fmt.Errorf(prefix + "%w", err)\<close>.\<close>

definition Errorf_w :: "string \<Rightarrow> error \<Rightarrow> error" where
  "Errorf_w prefix err = wrapError (prefix @ Error err) err"

subsection \<open>The provider's data\<close>

datatype Part = Text string | OtherPart

record Content =
  Parts :: "Part list"
  Role :: string

text \<open>The field \<open>Content\<close> of a candidate is a pointer and may be nil.\<close>

record Candidate =
  Content :: "Content option"

record GenerateContentResponse =
  Candidates :: "Candidate list"

text \<open>
  The provider's conversation, \<open>genai.ChatSession\<close>: the turns so far. The session
  entity is the only holder of the pointer to it, so it is kept inline.
\<close>

record genai_ChatSession =
  History :: "Content list"

datatype Client = Client string

subsection \<open>The session entity and the store\<close>

text \<open>Instants and durations are counted in nanoseconds.\<close>

record ChatSession =
  Session :: genai_ChatSession
  LastUsed :: int

text \<open>
  A value of the \<open>sync.Map\<close> has the dynamic type \<open>any\<close>: a pointer to a
  \<open>ChatSession\<close> (an address into the allocated objects) or something else.
\<close>

datatype any = PtrChatSession nat | NotChatSession

type_synonym syncMap = "(string \<times> any) list"

definition Load :: "syncMap \<Rightarrow> string \<Rightarrow> any option" where
  "Load m key = map_of m key"

definition LoadOrStore :: "string \<Rightarrow> any \<Rightarrow> syncMap \<Rightarrow> any \<times> bool \<times> syncMap" where
  "LoadOrStore key val m =
     (case map_of m key of
        Some actual \<Rightarrow> (actual, True, m)
      | None \<Rightarrow> (val, False, m @ [(key, val)]))"

definition Delete :: "string \<Rightarrow> syncMap \<Rightarrow> syncMap" where
  "Delete key m = filter (\<lambda>kv. fst kv \<noteq> key) m"

record state =
  GEMINI_API_KEY :: "string option"
  chatSessions :: syncMap
  client :: "Client option"
  clientErr :: "error option"
  objects :: "ChatSession list"
  newClientCalls :: nat
  log_output :: "string list"

text \<open>
  \<open>GEMINI_API_KEY\<close> is the process environment's entry, read by \<open>os.LookupEnv\<close>; the
  program never sets a variable after start-up, so no step changes it.
  \<open>objects\<close> holds every \<open>ChatSession\<close> the process has allocated, by address;
  \<open>newClientCalls\<close> counts the calls of \<open>genai.NewClient\<close>; \<open>log_output\<close> collects what
  \<open>log.Printf\<close> is given.
\<close>

definition init_state :: "string option \<Rightarrow> state" where
  "init_state key =
     \<lparr>GEMINI_API_KEY = key, chatSessions = [], client = None, clientErr = None,
      objects = [], newClientCalls = 0, log_output = []\<rparr>"

definition Printf :: "string \<Rightarrow> state \<Rightarrow> state" where
  "Printf line s = s\<lparr>log_output := log_output s @ [line]\<rparr>"

subsection \<open>What the world answers to one request\<close>

record world =
  NewClient :: "string \<Rightarrow> error + Client"
  Now_new :: int
  Now_used :: int
  SendMessage :: "genai_ChatSession \<Rightarrow> string \<Rightarrow> genai_ChatSession \<times> (error + GenerateContentResponse)"

text \<open>
  \<open>NewClient\<close> is the outcome of \<open>genai.NewClient\<close> for an API key (a client or an
  error, as the library returns them), \<open>Now_new\<close> the
  reading of \<open>time.Now()\<close> in the struct literal of the new session, \<open>Now_used\<close> the
  reading assigned to \<open>LastUsed\<close> afterwards, and \<open>SendMessage\<close> what the provider does
  with a conversation and a message: the conversation afterwards, and a response or
  an error.
\<close>

definition StartChat :: genai_ChatSession where
  "StartChat = \<lparr>History = []\<rparr>"

subsection \<open>generateGeminiResponse\<close>

datatype result = Return string "error option" | Panic string

definition nil_dereference :: string where
  "nil_dereference = ''invalid memory address or nil pointer dereference''"

definition no_response :: result where
  "no_response =
     Return ''No response generated.'' (Some (Errorf ''no valid candidates found in response''))"

definition first_text :: "GenerateContentResponse \<Rightarrow> result" where
  "first_text resp =
     (case Candidates resp of
        [] \<Rightarrow> no_response
      | c # _ \<Rightarrow>
          (case Content c of
             None \<Rightarrow> Panic nil_dereference
           | Some ct \<Rightarrow>
               (case Parts ct of
                  [] \<Rightarrow> no_response
                | Text t # _ \<Rightarrow> Return t None
                | OtherPart # _ \<Rightarrow> no_response)))"

text \<open>
  The store lookup: the new session is constructed, with a fresh conversation, before
  \<open>LoadOrStore\<close> is called, whether or not the address already has one.
\<close>

definition getOrCreate :: "string \<Rightarrow> int \<Rightarrow> state \<Rightarrow> any \<times> state" where
  "getOrCreate ip now s =
     (let p = length (objects s);
          s1 = s\<lparr>objects := objects s @ [\<lparr>Session = StartChat, LastUsed = now\<rparr>]\<rparr>;
          (session, loaded, m) = LoadOrStore ip (PtrChatSession p) (chatSessions s1)
      in (session, s1\<lparr>chatSessions := m\<rparr>))"

text \<open>
  Lines 238 to 252, on the session at address \<open>a\<close>: \<open>LastUsed\<close> is assigned, then the
  message is sent. Go has no dangling pointer; an address that is not allocated
  stands for a nil pointer, whose dereference panics.
\<close>

definition exchange :: "nat \<Rightarrow> string \<Rightarrow> world \<Rightarrow> state \<Rightarrow> result \<times> state" where
  "exchange a userInput w s =
     (if a < length (objects s) then
        let s1 = s\<lparr>objects := (objects s)[a := (objects s ! a)\<lparr>LastUsed := Now_used w\<rparr>]\<rparr>;
            (conv, r) = SendMessage w (Session (objects s1 ! a)) userInput;
            s2 = s1\<lparr>objects := (objects s1)[a := (objects s1 ! a)\<lparr>Session := conv\<rparr>]\<rparr>
        in (case r of
              Inl err \<Rightarrow>
                (Return [] (Some (Errorf_w ''Error sending message: '' err)),
                 Printf (''Error sending message to Gemini: '' @ Error err) s2)
            | Inr resp \<Rightarrow> (first_text resp, s2))
      else (Panic nil_dereference, s))"

text \<open>
  Lines 223 to 253: the check of the cached error, the store lookup with its type
  assertion, and the exchange.
\<close>

definition chat :: "string \<Rightarrow> string \<Rightarrow> world \<Rightarrow> state \<Rightarrow> result \<times> state" where
  "chat ip userInput w s =
     (case clientErr s of
        Some err \<Rightarrow> (Return [] (Some (Errorf_w ''Error creating AI client: '' err)), s)
      | None \<Rightarrow>
          (case getOrCreate ip (Now_new w) s of
             (PtrChatSession a, s1) \<Rightarrow> exchange a userInput w s1
           | (NotChatSession, s1) \<Rightarrow>
               (Panic ''interface conversion: interface {} is not *main.ChatSession'', s1)))"

definition generateGeminiResponse :: "string \<Rightarrow> string \<Rightarrow> world \<Rightarrow> state \<Rightarrow> result \<times> state" where
  "generateGeminiResponse ip userInput w s =
     (case GEMINI_API_KEY s of
        None \<Rightarrow> (Return [] (Some (Errorf ''GEMINI_API_KEY environment variable not set'')), s)
      | Some apiKey \<Rightarrow>
          (if client s = None \<and> clientErr s = None then
             (case NewClient w apiKey of
                Inl err \<Rightarrow>
                  (Return [] (Some (Errorf_w ''Error creating AI client: '' err)),
                   s\<lparr>client := None, clientErr := Some err,
                     newClientCalls := Suc (newClientCalls s)\<rparr>)
              | Inr c \<Rightarrow>
                  chat ip userInput w
                    (s\<lparr>client := Some c, clientErr := None,
                       newClientCalls := Suc (newClientCalls s)\<rparr>))
           else chat ip userInput w s))"

subsection \<open>handleChat\<close>

text \<open>
  The request context: the client address, and what \<open>c.BodyParser\<close> makes of the
  body (an error, or the field \<open>message\<close>).
\<close>

record Ctx =
  IP :: string
  BodyParser :: "error + string"

record Response =
  status :: nat
  json :: "(string \<times> string) list"

datatype handled = Responded Response | Panicked string

definition StatusOK :: nat where "StatusOK = 200"
definition StatusBadRequest :: nat where "StatusBadRequest = 400"
definition StatusInternalServerError :: nat where "StatusInternalServerError = 500"

definition handleChat :: "Ctx \<Rightarrow> world \<Rightarrow> state \<Rightarrow> handled \<times> state" where
  "handleChat c w s =
     (case BodyParser c of
        Inl err \<Rightarrow>
          (Responded \<lparr>status = StatusBadRequest, json = [(''error'', ''Invalid request body'')]\<rparr>,
           Printf (''Error parsing request body from '' @ IP c @ '': '' @ Error err) s)
      | Inr message \<Rightarrow>
          (let ip = IP c in
           case generateGeminiResponse ip message w s of
             (Return response (Some err), s1) \<Rightarrow>
               (Responded \<lparr>status = StatusInternalServerError, json = [(''error'', Error err)]\<rparr>,
                Printf (''Error generating Gemini response for '' @ ip @ '': '' @ Error err) s1)
           | (Return response None, s1) \<Rightarrow>
               (Responded \<lparr>status = StatusOK, json = [(''response'', response)]\<rparr>, s1)
           | (Panic p, s1) \<Rightarrow> (Panicked p, s1)))"

subsection \<open>cleanupSessions\<close>

definition Minute :: int where
  "Minute = 60 * 1000000000"

definition maxDuration :: int where
  "maxDuration = 2 ^ 63 - 1"

definition minDuration :: int where
  "minDuration = - (2 ^ 63)"

text \<open>\<open>t.Sub(u)\<close>: the difference, kept within the range of a \<open>Duration\<close>.\<close>

definition Sub :: "int \<Rightarrow> int \<Rightarrow> int" where
  "Sub t u =
     (let d = t - u
      in if maxDuration < d then maxDuration else if d < minDuration then minDuration else d)"

text \<open>
  The function given to \<open>Range\<close>. It answers whether the iteration goes on; a
  result \<open>None\<close> is a panic of the sweeper's goroutine. \<open>Range\<close> visits every entry
  the map holds when the cycle starts, once; the function deletes no key but the one
  it is visiting.
\<close>

fun visit :: "int \<Rightarrow> string \<Rightarrow> any \<Rightarrow> state \<Rightarrow> (bool \<times> state) option" where
  "visit now key NotChatSession s =
     Some (True, Printf (''Unexpected value type in chatSessions for key '' @ key) s)"
| "visit now key (PtrChatSession a) s =
     (if a < length (objects s) then
        (if 30 * Minute < Sub now (LastUsed (objects s ! a)) then
           Some (True,
             Printf (''Deleted inactive session for IP: '' @ key)
               (s\<lparr>chatSessions := Delete key (chatSessions s)\<rparr>))
         else Some (True, s))
      else None)"

fun Range :: "(string \<Rightarrow> any \<Rightarrow> state \<Rightarrow> (bool \<times> state) option) \<Rightarrow> syncMap \<Rightarrow> state \<Rightarrow> state option" where
  "Range f [] s = Some s"
| "Range f ((key, val) # kvs) s =
     (case f key val s of
        None \<Rightarrow> None
      | Some (continue, s1) \<Rightarrow> if continue then Range f kvs s1 else Some s1)"

text \<open>One cycle of the loop, woken at \<open>now\<close>.\<close>

definition sweep :: "int \<Rightarrow> state \<Rightarrow> state option" where
  "sweep now s = Range (visit now) (chatSessions s) s"

text \<open>
  The loop never returns. Its first cycles, one for each reading of the clock after
  a sleep of ten minutes:
\<close>

fun cleanupSessions :: "int list \<Rightarrow> state \<Rightarrow> state option" where
  "cleanupSessions [] s = Some s"
| "cleanupSessions (now # nows) s =
     (case sweep now s of None \<Rightarrow> None | Some s1 \<Rightarrow> cleanupSessions nows s1)"

subsection \<open>Runs of the server\<close>

text \<open>
  A run interleaves requests and sweep cycles. A handler that panics is recovered by
  the middleware and the process goes on with the state the handler left; a panic of
  the sweeper ends the run.
\<close>

datatype op = Chat Ctx world | Sweep int

fun step :: "op \<Rightarrow> state \<Rightarrow> state option" where
  "step (Chat c w) s = Some (snd (handleChat c w s))"
| "step (Sweep now) s = sweep now s"

fun run :: "op list \<Rightarrow> state \<Rightarrow> state option" where
  "run [] s = Some s"
| "run (x # xs) s = (case step x s of None \<Rightarrow> None | Some s1 \<Rightarrow> run xs s1)"

subsection \<open>Invariant of the store\<close>

text \<open>
  A stored value is well formed when it is a pointer to an allocated \<open>ChatSession\<close>.
  \<open>ptr_ok\<close> is the weaker condition that lets a sweep run to its end: a value of
  another type is allowed, a pointer must be allocated.
\<close>

fun valid_ptr :: "nat \<Rightarrow> any \<Rightarrow> bool" where
  "valid_ptr n (PtrChatSession a) = (a < n)"
| "valid_ptr n NotChatSession = False"

fun ptr_ok :: "nat \<Rightarrow> any \<Rightarrow> bool" where
  "ptr_ok n (PtrChatSession a) = (a < n)"
| "ptr_ok n NotChatSession = True"

text \<open>
  The keys of the map are distinct, no two keys share a session, and every value is a
  pointer to an allocated session.
\<close>

definition store_inv :: "state \<Rightarrow> bool" where
  "store_inv s =
     (distinct (map fst (chatSessions s)) \<and> distinct (map snd (chatSessions s)) \<and>
      list_all (valid_ptr (length (objects s))) (map snd (chatSessions s)))"

text \<open>The test of the sweeper on a stored value.\<close>

fun idle :: "int \<Rightarrow> ChatSession list \<Rightarrow> any \<Rightarrow> bool" where
  "idle now objs (PtrChatSession a) = (30 * Minute < Sub now (LastUsed (objs ! a)))"
| "idle now objs NotChatSession = False"

text \<open>Two states that differ at most in the map and in the log.\<close>

definition same_process :: "state \<Rightarrow> state \<Rightarrow> bool" where
  "same_process s s' =
     (GEMINI_API_KEY s' = GEMINI_API_KEY s \<and> client s' = client s \<and>
      clientErr s' = clientErr s \<and> newClientCalls s' = newClientCalls s \<and>
      objects s' = objects s)"

text \<open>
  The assignment of lines 216 to 221 alone; \<open>generateGeminiResponse\<close> is \<open>chat\<close> after
  it (lemma \<open>generateGeminiResponse_connect\<close>).
\<close>

definition connect :: "string \<Rightarrow> world \<Rightarrow> state \<Rightarrow> state" where
  "connect apiKey w s =
     (if client s = None \<and> clientErr s = None then
        (case NewClient w apiKey of
           Inl err \<Rightarrow> s\<lparr>client := None, clientErr := Some err, newClientCalls := Suc (newClientCalls s)\<rparr>
         | Inr c \<Rightarrow> s\<lparr>client := Some c, clientErr := None, newClientCalls := Suc (newClientCalls s)\<rparr>)
      else s)"

text \<open>
  A clock that never runs backwards along a run, starting from the reading \<open>t\<close>.
\<close>

fun clock_mono :: "int \<Rightarrow> op list \<Rightarrow> bool" where
  "clock_mono t [] = True"
| "clock_mono t (Chat c w # xs) = (t \<le> Now_new w \<and> Now_new w \<le> Now_used w \<and> clock_mono (Now_used w) xs)"
| "clock_mono t (Sweep now # xs) = (t \<le> now \<and> clock_mono now xs)"

text \<open>No allocated session was used after \<open>t\<close>.\<close>

definition not_after :: "int \<Rightarrow> state \<Rightarrow> bool" where
  "not_after t s = list_all (\<lambda>cs. LastUsed cs \<le> t) (objects s)"

text \<open>Successive store lookups for one address, one per reading of the clock.\<close>

fun getOrCreate_calls :: "string \<Rightarrow> int list \<Rightarrow> state \<Rightarrow> any list \<times> state" where
  "getOrCreate_calls ip [] s = ([], s)"
| "getOrCreate_calls ip (now # nows) s =
     (case getOrCreate ip now s of
        (session, s1) \<Rightarrow>
          (case getOrCreate_calls ip nows s1 of (sessions, s2) \<Rightarrow> (session # sessions, s2)))"


subsection \<open>The accesses of a handler to shared variables\<close>

text \<open>
  Handlers run concurrently, and nothing but the map itself is synchronised: the
  package variables \<open>client\<close> and \<open>clientErr\<close> and the fields of a session are read
  and written with no lock. Between the test of line 216 and the assignment of
  line 217, and between the reading of the clock and the store of line 238, another
  handler may run. These are the single accesses; \<open>generateGeminiResponse\<close> and
  \<open>exchange\<close> above are their composition with nothing in between (lemmas
  \<open>generateGeminiResponse_accesses\<close> and \<open>exchange_accesses\<close>).
\<close>

definition test_216 :: "state \<Rightarrow> bool" where
  "test_216 s = (client s = None \<and> clientErr s = None)"

definition assign_217 :: "string \<Rightarrow> world \<Rightarrow> state \<Rightarrow> state" where
  "assign_217 apiKey w s =
     (case NewClient w apiKey of
        Inl err \<Rightarrow>
          s\<lparr>client := None, clientErr := Some err, newClientCalls := Suc (newClientCalls s)\<rparr>
      | Inr c \<Rightarrow>
          s\<lparr>client := Some c, clientErr := None, newClientCalls := Suc (newClientCalls s)\<rparr>)"

text \<open>The store of line 238, of a reading \<open>t\<close> of the clock taken before.\<close>

definition store_238 :: "nat \<Rightarrow> int \<Rightarrow> state \<Rightarrow> state" where
  "store_238 a t s = s\<lparr>objects := (objects s)[a := (objects s ! a)\<lparr>LastUsed := t\<rparr>]\<rparr>"

text \<open>Lines 240 to 252.\<close>

definition send_240 :: "nat \<Rightarrow> string \<Rightarrow> world \<Rightarrow> state \<Rightarrow> result \<times> state" where
  "send_240 a userInput w s =
     (let (conv, r) = SendMessage w (Session (objects s ! a)) userInput;
          s2 = s\<lparr>objects := (objects s)[a := (objects s ! a)\<lparr>Session := conv\<rparr>]\<rparr>
      in (case r of
            Inl err \<Rightarrow>
              (Return [] (Some (Errorf_w ''Error sending message: '' err)),
               Printf (''Error sending message to Gemini: '' @ Error err) s2)
          | Inr resp \<Rightarrow> (first_text resp, s2)))"

subsection \<open>Worlds and requests used as examples\<close>

definition answer :: "string \<Rightarrow> GenerateContentResponse" where
  "answer t = \<lparr>Candidates = [\<lparr>Content = Some \<lparr>Parts = [Text t], Role = ''model''\<rparr>\<rparr>]\<rparr>"

definition turn :: "string \<Rightarrow> string \<Rightarrow> Content" where
  "turn role t = \<lparr>Parts = [Text t], Role = role\<rparr>"

text \<open>The provider answers \<open>ok\<close>; the request arrives 100 ns after start-up.\<close>

definition provider_up :: world where
  "provider_up =
     \<lparr>NewClient = (\<lambda>apiKey. Inr (Client apiKey)), Now_new = 100, Now_used = 101,
      SendMessage = (\<lambda>conv msg.
        (\<lparr>History = History conv @ [turn ''user'' msg, turn ''model'' ''ok'']\<rparr>,
         Inr (answer ''ok'')))\<rparr>"

text \<open>The provider call fails; the request arrives five minutes after start-up.\<close>

definition provider_down :: world where
  "provider_down =
     \<lparr>NewClient = (\<lambda>apiKey. Inr (Client apiKey)),
      Now_new = 5 * Minute, Now_used = 5 * Minute + 1,
      SendMessage = (\<lambda>conv msg. (conv, Inl (errorString ''context deadline exceeded'')))\<rparr>"

text \<open>The client cannot be created.\<close>

definition client_down :: world where
  "client_down =
     \<lparr>NewClient = (\<lambda>apiKey. Inl (errorString ''invalid API key'')), Now_new = 50, Now_used = 51,
      SendMessage = (\<lambda>conv msg. (conv, Inr (answer ''ok'')))\<rparr>"

definition request :: "string \<Rightarrow> string \<Rightarrow> Ctx" where
  "request ip message = \<lparr>IP = ip, BodyParser = Inr message\<rparr>"


text \<open>One session for 10.0.0.5, last used at start-up, and a client.\<close>

definition one_session :: state where
  "one_session =
     \<lparr>GEMINI_API_KEY = Some ''key'', chatSessions = [(''10.0.0.5'', PtrChatSession 0)],
      client = Some (Client ''key''), clientErr = None,
      objects = [\<lparr>Session = StartChat, LastUsed = 0\<rparr>], newClientCalls = 1, log_output = []\<rparr>"

text \<open>
  What a store lookup for an address answers in a state: the stored value, or else
  the pointer to the session that the lookup allocates.
\<close>

definition session_of :: "state \<Rightarrow> string \<Rightarrow> any" where
  "session_of s ip =
     (case Load (chatSessions s) ip of
        Some v \<Rightarrow> v
      | None \<Rightarrow> PtrChatSession (length (objects s)))"

text \<open>Two addresses with a session each; the second has spoken once.\<close>

definition two_sessions :: state where
  "two_sessions =
     \<lparr>GEMINI_API_KEY = Some ''key'',
      chatSessions = [(''10.0.0.5'', PtrChatSession 0), (''10.0.0.6'', PtrChatSession 1)],
      client = Some (Client ''key''), clientErr = None,
      objects = [\<lparr>Session = StartChat, LastUsed = 0\<rparr>,
                 \<lparr>Session = \<lparr>History = [turn ''user'' ''arm the alarm'', turn ''model'' ''ok'']\<rparr>,
                  LastUsed = 7\<rparr>],
      newClientCalls = 1, log_output = []\<rparr>"

text \<open>
  Two handlers for 10.0.0.5 have both passed the store lookup, at 150 and at 160.
\<close>

definition both_looked_up :: state where
  "both_looked_up =
     snd (getOrCreate ''10.0.0.5'' 160 (snd (getOrCreate ''10.0.0.5'' 150 one_session)))"

text \<open>
  Two first calls have both passed the test of line 216; the creation of the first
  failed and was assigned, then the creation of the second succeeded and was assigned.
\<close>

definition both_assigned :: state where
  "both_assigned =
     assign_217 ''key'' provider_up (assign_217 ''key'' client_down (init_state (Some ''key'')))"

section \<open>Properties\<close>

subsection \<open>The map, the sweep and the steps of a request\<close>

lemma map_of_Delete: "map_of (Delete key m) k = (if k = key then None else map_of m k)"
  by (induction m) (auto simp: Delete_def)

lemma Delete_idem: "Delete key (Delete key m) = Delete key m"
  by (simp add: Delete_def)

lemma Delete_absent: "map_of m key = None \<Longrightarrow> Delete key m = m"
  by (induction m) (auto simp: Delete_def split: if_splits)

lemma Sub_gt: "(30 * Minute < Sub t u) = (30 * Minute < t - u)"
  by (simp add: Sub_def Let_def Minute_def maxDuration_def minDuration_def)

lemma Printf_fields [simp]:
  "GEMINI_API_KEY (Printf l s) = GEMINI_API_KEY s"
  "chatSessions (Printf l s) = chatSessions s"
  "client (Printf l s) = client s"
  "clientErr (Printf l s) = clientErr s"
  "objects (Printf l s) = objects s"
  "newClientCalls (Printf l s) = newClientCalls s"
  "log_output (Printf l s) = log_output s @ [l]"
  by (simp_all add: Printf_def)

lemma visit_ok:
  assumes "ptr_ok (length (objects s)) v"
  shows "\<exists>s1. visit now k v s = Some (True, s1) \<and> same_process s s1 \<and>
           chatSessions s1 = (if idle now (objects s) v then Delete k (chatSessions s) else chatSessions s)"
  using assms by (cases v) (simp_all add: same_process_def del: Printf_fields(7))

lemma Range_visit:
  "list_all (ptr_ok (length (objects s))) (map snd kvs) \<Longrightarrow>
   \<exists>s'. Range (visit now) kvs s = Some s' \<and> same_process s s' \<and>
     chatSessions s' =
       filter (\<lambda>kv. \<not> (\<exists>v. (fst kv, v) \<in> set kvs \<and> idle now (objects s) v)) (chatSessions s)"
proof (induction kvs arbitrary: s)
  case Nil
  then show ?case by (simp add: same_process_def)
next
  case (Cons kv kvs)
  obtain k v where kv: "kv = (k, v)" by (cases kv)
  from Cons.prems kv have "ptr_ok (length (objects s)) v" by simp
  from visit_ok[OF this, of now k] obtain s1 where
    s1: "visit now k v s = Some (True, s1)" "same_process s s1"
        "chatSessions s1 = (if idle now (objects s) v then Delete k (chatSessions s) else chatSessions s)"
    by blast
  have o: "objects s1 = objects s" using s1(2) by (simp add: same_process_def)
  from Cons.prems have "list_all (ptr_ok (length (objects s1))) (map snd kvs)" by (simp add: o)
  from Cons.IH[OF this] obtain s' where
    s': "Range (visit now) kvs s1 = Some s'" "same_process s1 s'"
        "chatSessions s' = filter (\<lambda>kv. \<not> (\<exists>v. (fst kv, v) \<in> set kvs \<and> idle now (objects s1) v)) (chatSessions s1)"
    by blast
  have "Range (visit now) (kv # kvs) s = Some s'"
    using s1(1) s'(1) by (simp add: kv)
  moreover have "same_process s s'"
    using s1(2) s'(2) by (simp add: same_process_def)
  moreover have "chatSessions s' =
      filter (\<lambda>kv'. \<not> (\<exists>v. (fst kv', v) \<in> set (kv # kvs) \<and> idle now (objects s) v)) (chatSessions s)"
  proof (cases "idle now (objects s) v")
    case True
    have "filter (\<lambda>kv. \<not> (\<exists>v. (fst kv, v) \<in> set kvs \<and> idle now (objects s) v)) (Delete k (chatSessions s)) =
          filter (\<lambda>kv'. \<not> (\<exists>v. (fst kv', v) \<in> set (kv # kvs) \<and> idle now (objects s) v)) (chatSessions s)"
      unfolding Delete_def filter_filter using True
      by (intro filter_cong[OF refl]) (auto simp: kv)
    then show ?thesis unfolding s'(3) s1(3) o using True by simp
  next
    case False
    have "filter (\<lambda>kv. \<not> (\<exists>v. (fst kv, v) \<in> set kvs \<and> idle now (objects s) v)) (chatSessions s) =
          filter (\<lambda>kv'. \<not> (\<exists>v. (fst kv', v) \<in> set (kv # kvs) \<and> idle now (objects s) v)) (chatSessions s)"
      using False by (intro filter_cong[OF refl]) (auto simp: kv)
    then show ?thesis unfolding s'(3) s1(3) o using False by simp
  qed
  ultimately show ?case by blast
qed

lemma distinct_keys_unique:
  "distinct (map fst m) \<Longrightarrow> (k, v) \<in> set m \<Longrightarrow> (k, v') \<in> set m \<Longrightarrow> v = v'"
  by (induction m) (auto simp: image_iff)

lemma sweep_store:
  assumes "distinct (map fst (chatSessions s))"
    and "list_all (ptr_ok (length (objects s))) (map snd (chatSessions s))"
  shows "\<exists>s'. sweep now s = Some s' \<and> same_process s s' \<and>
           chatSessions s' = filter (\<lambda>kv. \<not> idle now (objects s) (snd kv)) (chatSessions s)"
proof -
  from Range_visit[OF assms(2), of now] obtain s' where
    s': "Range (visit now) (chatSessions s) s = Some s'" "same_process s s'"
        "chatSessions s' = filter (\<lambda>kv. \<not> (\<exists>v. (fst kv, v) \<in> set (chatSessions s) \<and> idle now (objects s) v)) (chatSessions s)"
    by blast
  have "filter (\<lambda>kv. \<not> (\<exists>v. (fst kv, v) \<in> set (chatSessions s) \<and> idle now (objects s) v)) (chatSessions s)
      = filter (\<lambda>kv. \<not> idle now (objects s) (snd kv)) (chatSessions s)"
  proof (rule filter_cong[OF refl])
    fix kv assume in_m: "kv \<in> set (chatSessions s)"
    show "(\<not> (\<exists>v. (fst kv, v) \<in> set (chatSessions s) \<and> idle now (objects s) v)) = (\<not> idle now (objects s) (snd kv))"
    proof -
      have "\<And>v. (fst kv, v) \<in> set (chatSessions s) \<Longrightarrow> v = snd kv"
        using distinct_keys_unique[OF assms(1)] in_m by (metis prod.collapse)
      moreover have "(fst kv, snd kv) \<in> set (chatSessions s)" using in_m by simp
      ultimately show ?thesis by blast
    qed
  qed
  with s' show ?thesis by (simp add: sweep_def)
qed

lemma getOrCreate_present:
  "map_of (chatSessions s) ip = Some v \<Longrightarrow>
   getOrCreate ip now s = (v, s\<lparr>objects := objects s @ [\<lparr>Session = StartChat, LastUsed = now\<rparr>]\<rparr>)"
  by (simp add: getOrCreate_def LoadOrStore_def Let_def)

lemma getOrCreate_absent:
  "map_of (chatSessions s) ip = None \<Longrightarrow>
   getOrCreate ip now s =
     (PtrChatSession (length (objects s)),
      s\<lparr>objects := objects s @ [\<lparr>Session = StartChat, LastUsed = now\<rparr>],
        chatSessions := chatSessions s @ [(ip, PtrChatSession (length (objects s)))]\<rparr>)"
  by (simp add: getOrCreate_def LoadOrStore_def Let_def)

lemma exchange_fields:
  "chatSessions (snd (exchange a u w s)) = chatSessions s"
  "GEMINI_API_KEY (snd (exchange a u w s)) = GEMINI_API_KEY s"
  "client (snd (exchange a u w s)) = client s"
  "clientErr (snd (exchange a u w s)) = clientErr s"
  "newClientCalls (snd (exchange a u w s)) = newClientCalls s"
  "length (objects (snd (exchange a u w s))) = length (objects s)"
  by (simp_all add: exchange_def Let_def split: prod.splits sum.splits)

lemma exchange_other:
  "b \<noteq> a \<Longrightarrow> objects (snd (exchange a u w s)) ! b = objects s ! b"
  by (simp add: exchange_def Let_def split: prod.splits sum.splits)

lemma exchange_LastUsed:
  "a < length (objects s) \<Longrightarrow> LastUsed (objects (snd (exchange a u w s)) ! a) = Now_used w"
  by (simp add: exchange_def Let_def split: prod.splits sum.splits)

lemma exchange_Session:
  "a < length (objects s) \<Longrightarrow>
   Session (objects (snd (exchange a u w s)) ! a) = fst (SendMessage w (Session (objects s ! a)) u)"
  by (simp add: exchange_def Let_def split: prod.splits sum.splits)

lemma exchange_fails:
  "a < length (objects s) \<Longrightarrow> snd (SendMessage w (Session (objects s ! a)) u) = Inl err \<Longrightarrow>
   fst (exchange a u w s) = Return [] (Some (Errorf_w ''Error sending message: '' err))"
  by (auto simp: exchange_def Let_def split: prod.splits sum.splits)

lemma exchange_log:
  "set (log_output (snd (exchange a u w s))) \<subseteq>
     set (log_output s) \<union> {l. \<exists>e. l = ''Error sending message to Gemini: '' @ e}"
  by (auto simp: exchange_def Let_def split: prod.splits sum.splits)

lemma chat_cases [case_names cached absent present malformed]:
  assumes "\<And>e. clientErr s = Some e \<Longrightarrow>
             chat ip u w s = (Return [] (Some (Errorf_w ''Error creating AI client: '' e)), s) \<Longrightarrow> P"
    and "clientErr s = None \<Longrightarrow> map_of (chatSessions s) ip = None \<Longrightarrow>
           chat ip u w s =
             exchange (length (objects s)) u w
               (s\<lparr>objects := objects s @ [\<lparr>Session = StartChat, LastUsed = Now_new w\<rparr>],
                  chatSessions := chatSessions s @ [(ip, PtrChatSession (length (objects s)))]\<rparr>) \<Longrightarrow> P"
    and "\<And>a. clientErr s = None \<Longrightarrow> map_of (chatSessions s) ip = Some (PtrChatSession a) \<Longrightarrow>
           chat ip u w s =
             exchange a u w (s\<lparr>objects := objects s @ [\<lparr>Session = StartChat, LastUsed = Now_new w\<rparr>]\<rparr>) \<Longrightarrow> P"
    and "clientErr s = None \<Longrightarrow> map_of (chatSessions s) ip = Some NotChatSession \<Longrightarrow>
           chat ip u w s =
             (Panic ''interface conversion: interface {} is not *main.ChatSession'',
              s\<lparr>objects := objects s @ [\<lparr>Session = StartChat, LastUsed = Now_new w\<rparr>]\<rparr>) \<Longrightarrow> P"
  shows P
proof (cases "clientErr s")
  case (Some e)
  then show ?thesis using assms(1) by (simp add: chat_def)
next
  case None
  show ?thesis
  proof (cases "map_of (chatSessions s) ip")
    case n: None
    show ?thesis using assms(2)[OF None n] by (simp add: chat_def None getOrCreate_absent[OF n])
  next
    case (Some v)
    show ?thesis
    proof (cases v)
      case (PtrChatSession a)
      show ?thesis using assms(3)[OF None Some[unfolded PtrChatSession]]
        by (simp add: chat_def None getOrCreate_present[OF Some] PtrChatSession)
    next
      case NotChatSession
      show ?thesis using assms(4)[OF None Some[unfolded NotChatSession]]
        by (simp add: chat_def None getOrCreate_present[OF Some] NotChatSession)
    qed
  qed
qed

lemma chat_fields:
  "GEMINI_API_KEY (snd (chat ip u w s)) = GEMINI_API_KEY s"
  "client (snd (chat ip u w s)) = client s"
  "clientErr (snd (chat ip u w s)) = clientErr s"
  "newClientCalls (snd (chat ip u w s)) = newClientCalls s"
  by (cases rule: chat_cases[of s ip u w]; simp add: exchange_fields)+

lemma chat_store:
  "chatSessions (snd (chat ip u w s)) =
     (if clientErr s = None \<and> map_of (chatSessions s) ip = None
      then chatSessions s @ [(ip, PtrChatSession (length (objects s)))] else chatSessions s)"
  by (cases rule: chat_cases[of s ip u w]; simp add: exchange_fields)

lemma chat_length:
  "length (objects (snd (chat ip u w s))) =
     (if clientErr s = None then Suc (length (objects s)) else length (objects s))"
  by (cases rule: chat_cases[of s ip u w]; simp add: exchange_fields)

lemma chat_old:
  assumes "a < length (objects s)"
  shows "objects (snd (chat ip u w s)) ! a = objects s ! a \<or>
         (clientErr s = None \<and> map_of (chatSessions s) ip = Some (PtrChatSession a) \<and>
          LastUsed (objects (snd (chat ip u w s)) ! a) = Now_used w)"
proof (cases rule: chat_cases[of s ip u w])
  case (cached e)
  then show ?thesis by simp
next
  case absent
  then show ?thesis using assms by (simp add: exchange_other nth_append)
next
  case (present b)
  show ?thesis
  proof (cases "a = b")
    case True
    then show ?thesis using present assms by (simp add: exchange_LastUsed)
  next
    case False
    then show ?thesis using present assms by (simp add: exchange_other nth_append)
  qed
next
  case malformed
  then show ?thesis using assms by (simp add: nth_append)
qed

lemma chat_new:
  assumes "clientErr s = None"
  shows "LastUsed (objects (snd (chat ip u w s)) ! length (objects s)) = Now_new w \<or>
         LastUsed (objects (snd (chat ip u w s)) ! length (objects s)) = Now_used w"
proof (cases rule: chat_cases[of s ip u w])
  case (cached e)
  then show ?thesis using assms by simp
next
  case absent
  then show ?thesis by (simp add: exchange_LastUsed)
next
  case (present b)
  show ?thesis
  proof (cases "b = length (objects s)")
    case True
    then show ?thesis using present by (simp add: exchange_LastUsed)
  next
    case False
    then have "length (objects s) \<noteq> b" by simp
    then show ?thesis using present by (simp add: exchange_other)
  qed
next
  case malformed
  then show ?thesis by simp
qed

lemma chat_log:
  "set (log_output (snd (chat ip u w s))) \<subseteq>
     set (log_output s) \<union> {l. \<exists>e. l = ''Error sending message to Gemini: '' @ e}"
proof (cases rule: chat_cases[of s ip u w])
  case absent
  show ?thesis unfolding absent(3) by (rule subset_trans[OF exchange_log]) simp
next
  case (present b)
  show ?thesis unfolding present(3) by (rule subset_trans[OF exchange_log]) simp
qed simp_all

lemma generateGeminiResponse_connect:
  "GEMINI_API_KEY s = Some apiKey \<Longrightarrow>
   generateGeminiResponse ip u w s = chat ip u w (connect apiKey w s)"
  by (auto simp: generateGeminiResponse_def connect_def chat_def split: sum.splits)

lemma generateGeminiResponse_no_key:
  "GEMINI_API_KEY s = None \<Longrightarrow>
   generateGeminiResponse ip u w s =
     (Return [] (Some (Errorf ''GEMINI_API_KEY environment variable not set'')), s)"
  by (simp add: generateGeminiResponse_def)

lemma connect_fields [simp]:
  "GEMINI_API_KEY (connect k w s) = GEMINI_API_KEY s"
  "chatSessions (connect k w s) = chatSessions s"
  "objects (connect k w s) = objects s"
  "log_output (connect k w s) = log_output s"
  by (simp_all add: connect_def split: sum.splits)

lemma connect_cached [simp]: "clientErr s = Some e \<Longrightarrow> connect k w s = s"
  by (simp add: connect_def)

lemma handleChat_fields:
  "chatSessions (snd (handleChat c w s)) =
     (case BodyParser c of Inl e \<Rightarrow> chatSessions s
      | Inr m \<Rightarrow> chatSessions (snd (generateGeminiResponse (IP c) m w s)))"
  "objects (snd (handleChat c w s)) =
     (case BodyParser c of Inl e \<Rightarrow> objects s
      | Inr m \<Rightarrow> objects (snd (generateGeminiResponse (IP c) m w s)))"
  "GEMINI_API_KEY (snd (handleChat c w s)) =
     (case BodyParser c of Inl e \<Rightarrow> GEMINI_API_KEY s
      | Inr m \<Rightarrow> GEMINI_API_KEY (snd (generateGeminiResponse (IP c) m w s)))"
  "clientErr (snd (handleChat c w s)) =
     (case BodyParser c of Inl e \<Rightarrow> clientErr s
      | Inr m \<Rightarrow> clientErr (snd (generateGeminiResponse (IP c) m w s)))"
  "client (snd (handleChat c w s)) =
     (case BodyParser c of Inl e \<Rightarrow> client s
      | Inr m \<Rightarrow> client (snd (generateGeminiResponse (IP c) m w s)))"
  "newClientCalls (snd (handleChat c w s)) =
     (case BodyParser c of Inl e \<Rightarrow> newClientCalls s
      | Inr m \<Rightarrow> newClientCalls (snd (generateGeminiResponse (IP c) m w s)))"
  by (simp_all add: handleChat_def Let_def split: sum.splits prod.splits result.splits option.splits)

lemma generateGeminiResponse_key:
  "GEMINI_API_KEY (snd (generateGeminiResponse ip u w s)) = GEMINI_API_KEY s"
  by (cases "GEMINI_API_KEY s")
     (simp_all add: generateGeminiResponse_no_key generateGeminiResponse_connect chat_fields)

lemma generateGeminiResponse_store:
  "chatSessions (snd (generateGeminiResponse ip u w s)) = chatSessions s \<or>
   (map_of (chatSessions s) ip = None \<and>
    chatSessions (snd (generateGeminiResponse ip u w s)) =
      chatSessions s @ [(ip, PtrChatSession (length (objects s)))])"
  by (cases "GEMINI_API_KEY s")
     (simp_all add: generateGeminiResponse_no_key generateGeminiResponse_connect chat_store)

lemma generateGeminiResponse_length:
  "length (objects (snd (generateGeminiResponse ip u w s))) = length (objects s) \<or>
   length (objects (snd (generateGeminiResponse ip u w s))) = Suc (length (objects s))"
  by (cases "GEMINI_API_KEY s")
     (simp_all add: generateGeminiResponse_no_key generateGeminiResponse_connect chat_length)

lemma generateGeminiResponse_old:
  assumes "a < length (objects s)"
  shows "objects (snd (generateGeminiResponse ip u w s)) ! a = objects s ! a \<or>
         (map_of (chatSessions s) ip = Some (PtrChatSession a) \<and>
          LastUsed (objects (snd (generateGeminiResponse ip u w s)) ! a) = Now_used w)"
proof (cases "GEMINI_API_KEY s")
  case None
  then show ?thesis by (simp add: generateGeminiResponse_no_key)
next
  case (Some k)
  have "a < length (objects (connect k w s))" using assms by simp
  from chat_old[OF this, of ip u w] show ?thesis
    by (auto simp: generateGeminiResponse_connect[OF Some])
qed

lemma generateGeminiResponse_new:
  assumes "length (objects s) \<le> a" "a < length (objects (snd (generateGeminiResponse ip u w s)))"
  shows "LastUsed (objects (snd (generateGeminiResponse ip u w s)) ! a) = Now_new w \<or>
         LastUsed (objects (snd (generateGeminiResponse ip u w s)) ! a) = Now_used w"
proof (cases "GEMINI_API_KEY s")
  case None
  then show ?thesis using assms by (simp add: generateGeminiResponse_no_key)
next
  case (Some k)
  have len: "length (objects (snd (chat ip u w (connect k w s)))) =
        (if clientErr (connect k w s) = None then Suc (length (objects s)) else length (objects s))"
    by (simp add: chat_length)
  with assms have ce: "clientErr (connect k w s) = None" and a: "a = length (objects (connect k w s))"
    by (auto simp: generateGeminiResponse_connect[OF Some] split: if_splits)
  from chat_new[OF ce, of ip u w] show ?thesis
    unfolding generateGeminiResponse_connect[OF Some] a by simp
qed

lemma generateGeminiResponse_cached:
  assumes "clientErr s = Some e" "GEMINI_API_KEY s = Some k"
  shows "generateGeminiResponse ip u w s =
           (Return [] (Some (Errorf_w ''Error creating AI client: '' e)), s)"
  using assms by (simp add: generateGeminiResponse_connect chat_def)

lemma generateGeminiResponse_clientErr:
  assumes "clientErr s = Some e"
  shows "clientErr (snd (generateGeminiResponse ip u w s)) = Some e \<and>
         newClientCalls (snd (generateGeminiResponse ip u w s)) = newClientCalls s"
  using assms by (cases "GEMINI_API_KEY s")
    (simp_all add: generateGeminiResponse_no_key generateGeminiResponse_connect chat_fields)

lemma generateGeminiResponse_log:
  "set (log_output (snd (generateGeminiResponse ip u w s))) \<subseteq>
     set (log_output s) \<union> {l. \<exists>e. l = ''Error sending message to Gemini: '' @ e}"
proof (cases "GEMINI_API_KEY s")
  case None
  then show ?thesis by (simp add: generateGeminiResponse_no_key)
next
  case (Some k)
  show ?thesis using chat_log[of ip u w "connect k w s"]
    by (simp add: generateGeminiResponse_connect[OF Some])
qed

lemma generateGeminiResponse_grow:
  "(chatSessions (snd (generateGeminiResponse ip u w s)) = chatSessions s \<or>
    (map_of (chatSessions s) ip = None \<and>
     length (objects (snd (generateGeminiResponse ip u w s))) = Suc (length (objects s)) \<and>
     chatSessions (snd (generateGeminiResponse ip u w s)) =
       chatSessions s @ [(ip, PtrChatSession (length (objects s)))])) \<and>
   length (objects s) \<le> length (objects (snd (generateGeminiResponse ip u w s)))"
  by (cases "GEMINI_API_KEY s")
     (simp_all add: generateGeminiResponse_no_key generateGeminiResponse_connect chat_store chat_length)

lemma valid_ptr_mono: "valid_ptr n v \<Longrightarrow> n \<le> n' \<Longrightarrow> valid_ptr n' v"
  by (cases v) simp_all

lemma valid_ptr_ok: "valid_ptr n v \<Longrightarrow> ptr_ok n v"
  by (cases v) simp_all

lemma store_inv_grow:
  assumes "store_inv s"
    and "chatSessions s' = chatSessions s \<or>
         (map_of (chatSessions s) ip = None \<and> length (objects s') = Suc (length (objects s)) \<and>
          chatSessions s' = chatSessions s @ [(ip, PtrChatSession (length (objects s)))])"
    and "length (objects s) \<le> length (objects s')"
  shows "store_inv s'"
proof -
  have v: "list_all (valid_ptr (length (objects s'))) (map snd (chatSessions s))"
    using assms(1,3) by (auto simp: store_inv_def list_all_iff intro: valid_ptr_mono)
  from assms(2) show ?thesis
  proof
    assume "chatSessions s' = chatSessions s"
    with assms(1) v show ?thesis by (simp add: store_inv_def)
  next
    assume app: "map_of (chatSessions s) ip = None \<and> length (objects s') = Suc (length (objects s)) \<and>
          chatSessions s' = chatSessions s @ [(ip, PtrChatSession (length (objects s)))]"
    then have k: "ip \<notin> fst ` set (chatSessions s)" by (simp add: map_of_eq_None_iff)
    have "PtrChatSession (length (objects s)) \<notin> snd ` set (chatSessions s)"
    proof
      assume "PtrChatSession (length (objects s)) \<in> snd ` set (chatSessions s)"
      with assms(1) have "valid_ptr (length (objects s)) (PtrChatSession (length (objects s)))"
        by (auto simp: store_inv_def list_all_iff)
      then show False by simp
    qed
    with app assms(1) v k show ?thesis by (simp add: store_inv_def)
  qed
qed

lemma handleChat_inv: "store_inv s \<Longrightarrow> store_inv (snd (handleChat c w s))"
proof (cases "BodyParser c")
  case (Inl e)
  assume "store_inv s"
  then show ?thesis by (simp add: store_inv_def handleChat_fields Inl)
next
  case (Inr m)
  assume inv: "store_inv s"
  show ?thesis
    using generateGeminiResponse_grow[of "IP c" m w s]
    by (intro store_inv_grow[OF inv, of _ "IP c"]) (simp_all add: handleChat_fields Inr)
qed

lemma sweep_inv:
  assumes "store_inv s"
  shows "\<exists>s'. sweep now s = Some s' \<and> store_inv s' \<and> same_process s s' \<and>
           chatSessions s' = filter (\<lambda>kv. \<not> idle now (objects s) (snd kv)) (chatSessions s)"
proof -
  have d: "distinct (map fst (chatSessions s))" and d2: "distinct (map snd (chatSessions s))"
    and v: "list_all (valid_ptr (length (objects s))) (map snd (chatSessions s))"
    using assms by (simp_all add: store_inv_def)
  from v have "list_all (ptr_ok (length (objects s))) (map snd (chatSessions s))"
    by (auto simp: list_all_iff intro: valid_ptr_ok)
  from sweep_store[OF d this, of now] obtain s' where
    s': "sweep now s = Some s'" "same_process s s'"
        "chatSessions s' = filter (\<lambda>kv. \<not> idle now (objects s) (snd kv)) (chatSessions s)"
    by blast
  have "store_inv s'"
    using d d2 v s'(2) unfolding store_inv_def s'(3)
    by (auto simp: same_process_def distinct_map_filter list_all_iff)
  with s' show ?thesis by blast
qed

lemma step_inv: "store_inv s \<Longrightarrow> \<exists>s'. step x s = Some s' \<and> store_inv s'"
proof (cases x)
  case (Chat c w)
  assume "store_inv s"
  then show ?thesis by (simp add: Chat handleChat_inv)
next
  case (Sweep now)
  assume "store_inv s"
  from sweep_inv[OF this, of now] show ?thesis by (auto simp: Sweep)
qed

lemma run_inv: "store_inv s \<Longrightarrow> \<exists>s'. run ops s = Some s' \<and> store_inv s'"
proof (induction ops arbitrary: s)
  case Nil
  then show ?case by simp
next
  case (Cons x xs)
  from step_inv[OF Cons.prems, of x] obtain s1 where s1: "step x s = Some s1" "store_inv s1"
    by blast
  from Cons.IH[OF s1(2)] show ?case by (simp add: s1(1))
qed

lemma cleanupSessions_run: "cleanupSessions nows s = run (map Sweep nows) s"
  by (induction nows arbitrary: s) (simp_all split: option.splits)

lemma init_inv: "store_inv (init_state key)"
  by (simp add: store_inv_def init_state_def)

lemma map_of_filter_distinct:
  assumes "distinct (map fst m)" "map_of m k = Some v"
  shows "map_of (filter P m) k = (if P (k, v) then Some v else None)"
  using assms
proof (induction m)
  case Nil
  then show ?case by simp
next
  case (Cons kv m)
  obtain k' v' where kv: "kv = (k', v')" by (cases kv)
  show ?case
  proof (cases "k' = k")
    case True
    with Cons.prems kv have v: "v' = v" and "k \<notin> fst ` set m" by auto
    then have "map_of (filter P m) k = None"
      by (auto simp: map_of_eq_None_iff)
    with True v kv show ?thesis by simp
  next
    case False
    with Cons kv show ?thesis by simp
  qed
qed

lemma store_inv_entry:
  assumes "store_inv s" "map_of (chatSessions s) k = Some v"
  shows "\<exists>a. v = PtrChatSession a \<and> a < length (objects s)"
proof -
  from assms(2) have "(k, v) \<in> set (chatSessions s)" by (rule map_of_SomeD)
  then have "v \<in> snd ` set (chatSessions s)" by force
  with assms(1) have "valid_ptr (length (objects s)) v"
    by (auto simp: store_inv_def list_all_iff)
  then show ?thesis by (cases v) simp_all
qed

lemma store_inv_injective:
  assumes "store_inv s" "map_of (chatSessions s) k = Some v" "map_of (chatSessions s) k' = Some v"
  shows "k = k'"
proof -
  from assms have "(k, v) \<in> set (chatSessions s)" "(k', v) \<in> set (chatSessions s)"
    by (auto dest: map_of_SomeD)
  moreover from assms(1) have "distinct (map snd (chatSessions s))" by (simp add: store_inv_def)
  ultimately show ?thesis
    using inj_onD[of snd "set (chatSessions s)" "(k, v)" "(k', v)"] by (simp add: distinct_map)
qed

lemma generateGeminiResponse_frame:
  assumes "store_inv s" "A \<noteq> B"
  shows "map_of (chatSessions (snd (generateGeminiResponse A u w s))) B = map_of (chatSessions s) B"
    and "map_of (chatSessions s) B = Some (PtrChatSession b) \<Longrightarrow>
         objects (snd (generateGeminiResponse A u w s)) ! b = objects s ! b"
proof -
  show "map_of (chatSessions (snd (generateGeminiResponse A u w s))) B = map_of (chatSessions s) B"
    using generateGeminiResponse_store[of A u w s] assms(2)
    by (auto simp: map_add_def split: option.splits)
next
  assume B: "map_of (chatSessions s) B = Some (PtrChatSession b)"
  from store_inv_entry[OF assms(1) B] have b: "b < length (objects s)" by simp
  from generateGeminiResponse_old[OF b, of A u w] show
    "objects (snd (generateGeminiResponse A u w s)) ! b = objects s ! b"
    using store_inv_injective[OF assms(1) _ B, of A] assms(2) by auto
qed

subsection \<open>Requests that reach the provider, cached errors, the clock and the log\<close>

lemma handleChat_clientErr:
  assumes "clientErr s = Some e"
  shows "clientErr (snd (handleChat c w s)) = Some e \<and>
         newClientCalls (snd (handleChat c w s)) = newClientCalls s \<and>
         GEMINI_API_KEY (snd (handleChat c w s)) = GEMINI_API_KEY s"
  using generateGeminiResponse_clientErr[OF assms]
  by (cases "BodyParser c") (simp_all add: handleChat_fields assms generateGeminiResponse_key)

lemma run_clientErr:
  assumes "store_inv s" "clientErr s = Some e"
  shows "\<exists>s'. run ops s = Some s' \<and> clientErr s' = Some e \<and>
           newClientCalls s' = newClientCalls s \<and> GEMINI_API_KEY s' = GEMINI_API_KEY s"
  using assms
proof (induction ops arbitrary: s)
  case Nil
  then show ?case by simp
next
  case (Cons x xs)
  have "\<exists>s1. step x s = Some s1 \<and> store_inv s1 \<and> clientErr s1 = Some e \<and>
          newClientCalls s1 = newClientCalls s \<and> GEMINI_API_KEY s1 = GEMINI_API_KEY s"
  proof (cases x)
    case (Chat c w)
    then show ?thesis
      using handleChat_clientErr[OF Cons.prems(2), of c w] handleChat_inv[OF Cons.prems(1), of c w]
      by simp
  next
    case (Sweep now)
    from sweep_inv[OF Cons.prems(1), of now] show ?thesis
      using Cons.prems(2) by (auto simp: Sweep same_process_def)
  qed
  then obtain s1 where s1: "step x s = Some s1" "store_inv s1" "clientErr s1 = Some e"
    "newClientCalls s1 = newClientCalls s" "GEMINI_API_KEY s1 = GEMINI_API_KEY s"
    by blast
  from Cons.IH[OF s1(2,3)] s1 show ?case by auto
qed

lemma connect_ok:
  assumes "clientErr s = None" "client s = None \<longrightarrow> (\<exists>cl. NewClient w k = Inr cl)"
  shows "clientErr (connect k w s) = None"
  using assms by (auto simp: connect_def split: sum.splits)

lemma connect_inv: "store_inv (connect k w s) = store_inv s"
  by (simp add: store_inv_def)

lemma chat_touches:
  assumes "store_inv s" "clientErr s = None"
  shows "\<exists>a. map_of (chatSessions (snd (chat ip u w s))) ip = Some (PtrChatSession a) \<and>
           LastUsed (objects (snd (chat ip u w s)) ! a) = Now_used w \<and>
           (map_of (chatSessions s) ip = None \<longrightarrow> a = length (objects s)) \<and>
           (\<forall>v. map_of (chatSessions s) ip = Some v \<longrightarrow> v = PtrChatSession a)"
proof (cases rule: chat_cases[of s ip u w])
  case (cached e)
  with assms(2) show ?thesis by simp
next
  case absent
  show ?thesis unfolding absent(3)
    by (rule exI[of _ "length (objects s)"]) (simp add: exchange_fields exchange_LastUsed absent(2) map_add_def)
next
  case (present a)
  from store_inv_entry[OF assms(1) present(2)] have a: "a < length (objects s)" by simp
  show ?thesis unfolding present(3)
    by (rule exI[of _ a]) (simp add: exchange_fields exchange_LastUsed present(2) a less_SucI)
next
  case malformed
  from store_inv_entry[OF assms(1) malformed(2)] show ?thesis by simp
qed

lemma chat_present_fails:
  assumes "store_inv s" "clientErr s = None" "map_of (chatSessions s) ip = Some (PtrChatSession a)"
    "snd (SendMessage w (Session (objects s ! a)) u) = Inl err"
  shows "fst (chat ip u w s) = Return [] (Some (Errorf_w ''Error sending message: '' err))"
proof (cases rule: chat_cases[of s ip u w])
  case (present b)
  with assms(3) have ab: "b = a" by simp
  from store_inv_entry[OF assms(1,3)] have a: "a < length (objects s)" by simp
  show ?thesis unfolding present(3) ab
    by (rule exchange_fails) (simp_all add: a less_SucI nth_append assms(4))
qed (use assms in simp_all)

lemma generateGeminiResponse_touches:
  assumes "store_inv s" "GEMINI_API_KEY s = Some k" "clientErr s = None"
    "client s = None \<longrightarrow> (\<exists>cl. NewClient w k = Inr cl)"
  shows "\<exists>a. map_of (chatSessions (snd (generateGeminiResponse ip u w s))) ip = Some (PtrChatSession a) \<and>
           LastUsed (objects (snd (generateGeminiResponse ip u w s)) ! a) = Now_used w \<and>
           (map_of (chatSessions s) ip = None \<longrightarrow> a = length (objects s)) \<and>
           (\<forall>v. map_of (chatSessions s) ip = Some v \<longrightarrow> v = PtrChatSession a)"
proof -
  have i: "store_inv (connect k w s)" using assms(1) by (simp add: connect_inv)
  from chat_touches[OF i connect_ok[OF assms(3,4)], of ip u w] show ?thesis
    by (simp add: generateGeminiResponse_connect[OF assms(2)])
qed

lemma generateGeminiResponse_fails:
  assumes "store_inv s" "GEMINI_API_KEY s = Some k" "clientErr s = None"
    "client s = None \<longrightarrow> (\<exists>cl. NewClient w k = Inr cl)"
    "map_of (chatSessions s) ip = Some (PtrChatSession a)"
    "snd (SendMessage w (Session (objects s ! a)) u) = Inl err"
  shows "fst (generateGeminiResponse ip u w s) =
           Return [] (Some (Errorf_w ''Error sending message: '' err))"
proof -
  have i: "store_inv (connect k w s)" using assms(1) by (simp add: connect_inv)
  from chat_present_fails[OF i connect_ok[OF assms(3,4)], where ip = ip and a = a and u = u and err = err] assms(5,6) show ?thesis
    by (simp add: generateGeminiResponse_connect[OF assms(2)])
qed

lemma connect_accesses:
  "connect apiKey w s = (if test_216 s then assign_217 apiKey w s else s)"
  by (simp add: connect_def test_216_def assign_217_def)

lemma generateGeminiResponse_accesses:
  "GEMINI_API_KEY s = Some apiKey \<Longrightarrow>
   generateGeminiResponse ip userInput w s =
     chat ip userInput w (if test_216 s then assign_217 apiKey w s else s)"
  using generateGeminiResponse_connect[of s apiKey ip userInput w] by (simp add: connect_accesses)

lemma exchange_accesses:
  "exchange a userInput w s =
     (if a < length (objects s) then send_240 a userInput w (store_238 a (Now_used w) s)
      else (Panic nil_dereference, s))"
  by (auto simp: exchange_def send_240_def store_238_def Let_def split: prod.splits sum.splits)




lemma filter_key_distinct:
  "distinct (map fst m) \<Longrightarrow> map_of m k = Some v \<Longrightarrow> filter (\<lambda>kv. fst kv = k) m = [(k, v)]"
proof (induction m)
  case Nil
  then show ?case by simp
next
  case (Cons kv m)
  obtain k' v' where kv: "kv = (k', v')" by (cases kv)
  show ?case
  proof (cases "k' = k")
    case True
    with Cons.prems kv have "v' = v" and "k \<notin> fst ` set m" by auto
    then have "filter (\<lambda>kv. fst kv = k) m = []" by (auto simp: filter_empty_conv)
    with True \<open>v' = v\<close> kv show ?thesis by simp
  next
    case False
    with Cons kv show ?thesis by simp
  qed
qed

lemma getOrCreate_step:
  "fst (getOrCreate ip now s) = session_of s ip \<and>
   session_of (snd (getOrCreate ip now s)) ip = session_of s ip \<and>
   map_of (chatSessions (snd (getOrCreate ip now s))) ip = Some (session_of s ip) \<and>
   objects (snd (getOrCreate ip now s)) = objects s @ [\<lparr>Session = StartChat, LastUsed = now\<rparr>] \<and>
   (distinct (map fst (chatSessions s)) \<longrightarrow>
      distinct (map fst (chatSessions (snd (getOrCreate ip now s)))))"
proof (cases "map_of (chatSessions s) ip")
  case None
  then have k: "ip \<notin> fst ` set (chatSessions s)" by (simp add: map_of_eq_None_iff)
  show ?thesis using k
    by (simp add: getOrCreate_absent[OF None] session_of_def Load_def map_add_def None)
next
  case (Some v)
  then show ?thesis
    by (simp add: getOrCreate_present[OF Some] session_of_def Load_def)
qed

lemma getOrCreate_calls_state:
  "fst (getOrCreate_calls ip nows s) = replicate (length nows) (session_of s ip) \<and>
   length (objects (snd (getOrCreate_calls ip nows s))) = length (objects s) + length nows \<and>
   (nows \<noteq> [] \<longrightarrow>
      map_of (chatSessions (snd (getOrCreate_calls ip nows s))) ip = Some (session_of s ip)) \<and>
   (distinct (map fst (chatSessions s)) \<longrightarrow>
      distinct (map fst (chatSessions (snd (getOrCreate_calls ip nows s)))))"
proof (induction nows arbitrary: s)
  case Nil
  show ?case by simp
next
  case (Cons now nows)
  let ?s1 = "snd (getOrCreate ip now s)"
  note st = getOrCreate_step[of ip now s]
  note ih = Cons.IH[of ?s1]
  have c: "getOrCreate_calls ip (now # nows) s =
      (session_of s ip # fst (getOrCreate_calls ip nows ?s1), snd (getOrCreate_calls ip nows ?s1))"
  proof -
    obtain e s1 where g: "getOrCreate ip now s = (e, s1)" by (cases "getOrCreate ip now s")
    with st have "e = session_of s ip" by simp
    with g show ?thesis by (simp split: prod.splits)
  qed
  have 1: "fst (getOrCreate_calls ip (now # nows) s) = replicate (length (now # nows)) (session_of s ip)"
    using ih st by (simp add: c del: getOrCreate_calls.simps)
  have 2: "length (objects (snd (getOrCreate_calls ip (now # nows) s))) =
      length (objects s) + length (now # nows)"
    using ih st by (simp add: c del: getOrCreate_calls.simps)
  have 3: "map_of (chatSessions (snd (getOrCreate_calls ip (now # nows) s))) ip = Some (session_of s ip)"
  proof (cases "nows = []")
    case True
    show ?thesis unfolding c using True st by simp
  next
    case False
    then show ?thesis using ih st by (simp add: c del: getOrCreate_calls.simps)
  qed
  have 4: "distinct (map fst (chatSessions s)) \<longrightarrow>
      distinct (map fst (chatSessions (snd (getOrCreate_calls ip (now # nows) s))))"
    using ih st by (simp add: c del: getOrCreate_calls.simps)
  from 1 2 3 4 show ?case by blast
qed

lemma handleChat_old:
  assumes "a < length (objects s)"
  shows "a < length (objects (snd (handleChat c w s))) \<and>
         (LastUsed (objects (snd (handleChat c w s)) ! a) = LastUsed (objects s ! a) \<or>
          LastUsed (objects (snd (handleChat c w s)) ! a) = Now_used w)"
proof (cases "BodyParser c")
  case (Inl e)
  then show ?thesis using assms by (simp add: handleChat_fields)
next
  case (Inr m)
  from generateGeminiResponse_old[OF assms, of "IP c" m w]
    generateGeminiResponse_length[of "IP c" m w s] assms
  show ?thesis by (auto simp: handleChat_fields Inr)
qed

lemma handleChat_not_after:
  assumes "not_after t s" "t \<le> Now_new w" "Now_new w \<le> Now_used w"
  shows "not_after (Now_used w) (snd (handleChat c w s))"
  unfolding not_after_def list_all_length
proof (intro allI impI)
  fix a assume a: "a < length (objects (snd (handleChat c w s)))"
  show "LastUsed (objects (snd (handleChat c w s)) ! a) \<le> Now_used w"
  proof (cases "a < length (objects s)")
    case True
    with assms(1) have "LastUsed (objects s ! a) \<le> t" by (simp add: not_after_def list_all_length)
    with handleChat_old[OF True, of c w] assms(2,3) show ?thesis by auto
  next
    case False
    show ?thesis
    proof (cases "BodyParser c")
      case (Inl e)
      with a False show ?thesis by (simp add: handleChat_fields)
    next
      case (Inr m)
      from False have "length (objects s) \<le> a" by simp
      from generateGeminiResponse_new[OF this, of "IP c" m w] a assms(3) show ?thesis
        by (auto simp: handleChat_fields Inr)
    qed
  qed
qed

lemma visit_log:
  assumes "visit now k v s = Some (b, s1)" "l \<in> set (log_output s1)"
  shows "l \<in> set (log_output s) \<or> (\<exists>x. l = ''Deleted inactive session for IP: '' @ x) \<or>
         v = NotChatSession"
  using assms by (cases v) (auto split: if_splits)

lemma Range_log:
  assumes "list_all (valid_ptr (length (objects s))) (map snd kvs)"
    "Range (visit now) kvs s = Some s'" "l \<in> set (log_output s')"
  shows "l \<in> set (log_output s) \<or> (\<exists>x. l = ''Deleted inactive session for IP: '' @ x)"
  using assms
proof (induction kvs arbitrary: s)
  case Nil
  then show ?case by simp
next
  case (Cons kv kvs)
  obtain k v where kv: "kv = (k, v)" by (cases kv)
  from Cons.prems(1) kv have v: "valid_ptr (length (objects s)) v" by simp
  from visit_ok[OF valid_ptr_ok[OF v], of now k] obtain s1 where
    s1: "visit now k v s = Some (True, s1)" "same_process s s1" by blast
  then have o: "objects s1 = objects s" by (simp add: same_process_def)
  from Cons.prems(1) have v1: "list_all (valid_ptr (length (objects s1))) (map snd kvs)"
    by (simp add: o)
  from Cons.prems(2) have r: "Range (visit now) kvs s1 = Some s'" by (simp add: kv s1(1))
  from Cons.IH[OF v1 r Cons.prems(3)] have
    "l \<in> set (log_output s1) \<or> (\<exists>x. l = ''Deleted inactive session for IP: '' @ x)" .
  then show ?case
  proof
    assume "l \<in> set (log_output s1)"
    from visit_log[OF s1(1) this] v show ?thesis by (cases v) auto
  qed simp
qed

lemma handleChat_log:
  assumes "l \<in> set (log_output (snd (handleChat c w s)))"
  shows "l \<in> set (log_output s) \<or> (\<exists>x. l = ''Error '' @ x)"
proof (cases "BodyParser c")
  case (Inl e)
  with assms show ?thesis by (auto simp: handleChat_def)
next
  case (Inr m)
  let ?g = "generateGeminiResponse (IP c) m w s"
  from assms Inr have "l \<in> set (log_output (snd ?g)) \<or> (\<exists>x. l = ''Error '' @ x)"
    by (auto simp: handleChat_def Let_def split: prod.splits result.splits option.splits)
  with generateGeminiResponse_log[of "IP c" m w s] show ?thesis by auto
qed

lemma run_log:
  assumes "store_inv s" "run ops s = Some s'" "l \<in> set (log_output s')"
  shows "l \<in> set (log_output s) \<or> (\<exists>x. l = ''Error '' @ x) \<or>
         (\<exists>x. l = ''Deleted inactive session for IP: '' @ x)"
  using assms
proof (induction ops arbitrary: s)
  case Nil
  then show ?case by simp
next
  case (Cons x xs)
  from step_inv[OF Cons.prems(1), of x] obtain s1 where s1: "step x s = Some s1" "store_inv s1"
    by blast
  from Cons.prems(2) have r: "run xs s1 = Some s'" by (simp add: s1(1))
  from Cons.IH[OF s1(2) r Cons.prems(3)] have
    "l \<in> set (log_output s1) \<or> (\<exists>x. l = ''Error '' @ x) \<or>
         (\<exists>x. l = ''Deleted inactive session for IP: '' @ x)" .
  moreover have "l \<in> set (log_output s1) \<Longrightarrow>
     l \<in> set (log_output s) \<or> (\<exists>x. l = ''Error '' @ x) \<or>
         (\<exists>x. l = ''Deleted inactive session for IP: '' @ x)"
  proof (cases x)
    case (Chat c w)
    assume "l \<in> set (log_output s1)"
    with s1(1) Chat have "l \<in> set (log_output (snd (handleChat c w s)))" by simp
    from handleChat_log[OF this] show ?thesis by blast
  next
    case (Sweep now)
    assume l: "l \<in> set (log_output s1)"
    from Cons.prems(1) have v: "list_all (valid_ptr (length (objects s))) (map snd (chatSessions s))"
      by (simp add: store_inv_def)
    from s1(1) Sweep have "Range (visit now) (chatSessions s) s = Some s1" by (simp add: sweep_def)
    from Range_log[OF v this l] show ?thesis by blast
  qed
  ultimately show ?case by blast
qed

section \<open>The claims\<close>

subsection \<open>Deleting from the store\<close>

text \<open>
  C8. \<open>Delete\<close> is idempotent: it returns a store and no error, deleting an address
  that the store does not hold leaves the store as it is, and deleting an address
  twice gives the same store as deleting it once; afterwards the address is absent.
\<close>

theorem Delete_idempotent:
  "Delete key (Delete key m) = Delete key m \<and>
   (Load m key = None \<longrightarrow> Delete key m = m) \<and>
   Load (Delete key m) key = None"
  by (simp add: Load_def Delete_idem Delete_absent map_of_Delete)

theorem Delete_idempotent_witness:
  "Delete ''10.0.0.7'' (Delete ''10.0.0.7'' (chatSessions one_session)) =
     Delete ''10.0.0.7'' (chatSessions one_session) \<and>
   Load (chatSessions one_session) ''10.0.0.7'' = None \<and>
   Delete ''10.0.0.7'' (chatSessions one_session) = chatSessions one_session \<and>
   Load (Delete ''10.0.0.7'' (chatSessions one_session)) ''10.0.0.7'' = None"
  using Delete_idempotent [of "''10.0.0.7''" "chatSessions one_session"]
  by (simp add: one_session_def Load_def)

subsection \<open>One cycle of the sweeper\<close>

text \<open>
  C4. A sweep cycle woken at \<open>now\<close> runs to its end, and for every entry of the store:
  when \<open>now - LastUsed\<close> is more than thirty minutes the address is absent from the
  store after the cycle, and when it is at most thirty minutes (in particular when it
  is below) the entry is still there, with the same session, untouched.
\<close>

theorem sweep_evicts_exactly_idle:
  assumes "store_inv s" and "Load (chatSessions s) key = Some (PtrChatSession a)"
  shows "\<exists>s'. sweep now s = Some s' \<and>
           (30 * Minute < now - LastUsed (objects s ! a) \<longrightarrow> Load (chatSessions s') key = None) \<and>
           (now - LastUsed (objects s ! a) \<le> 30 * Minute \<longrightarrow>
              Load (chatSessions s') key = Some (PtrChatSession a) \<and> objects s' ! a = objects s ! a)"
proof -
  from sweep_inv[OF assms(1), of now] obtain s' where
    s': "sweep now s = Some s'" "same_process s s'"
        "chatSessions s' = filter (\<lambda>kv. \<not> idle now (objects s) (snd kv)) (chatSessions s)"
    by blast
  from assms(1) have d: "distinct (map fst (chatSessions s))" by (simp add: store_inv_def)
  from assms(2) have m: "map_of (chatSessions s) key = Some (PtrChatSession a)" by (simp add: Load_def)
  have "Load (chatSessions s') key =
          (if 30 * Minute < now - LastUsed (objects s ! a) then None else Some (PtrChatSession a))"
    unfolding Load_def s'(3) map_of_filter_distinct[OF d m] by (simp add: Sub_gt)
  moreover have "objects s' = objects s" using s'(2) by (simp add: same_process_def)
  ultimately show ?thesis using s'(1) by auto
qed

theorem sweep_evicts_exactly_idle_witness:
  "store_inv one_session \<and>
   Load (chatSessions one_session) ''10.0.0.5'' = Some (PtrChatSession 0) \<and>
   30 * Minute < (30 * Minute + 1) - LastUsed (objects one_session ! 0) \<and>
   (\<exists>s'. sweep (30 * Minute + 1) one_session = Some s' \<and>
      Load (chatSessions s') ''10.0.0.5'' = None) \<and>
   30 * Minute - LastUsed (objects one_session ! 0) \<le> 30 * Minute \<and>
   (\<exists>s'. sweep (30 * Minute) one_session = Some s' \<and>
      Load (chatSessions s') ''10.0.0.5'' = Some (PtrChatSession 0))"
proof -
  have i: "store_inv one_session"
    by (simp add: store_inv_def one_session_def)
  have l: "Load (chatSessions one_session) ''10.0.0.5'' = Some (PtrChatSession 0)"
    by (simp add: Load_def one_session_def)
  have late: "30 * Minute < (30 * Minute + 1) - LastUsed (objects one_session ! 0)"
    by (simp add: one_session_def)
  have early: "30 * Minute - LastUsed (objects one_session ! 0) \<le> 30 * Minute"
    by (simp add: one_session_def)
  from sweep_evicts_exactly_idle [OF i l, of "30 * Minute + 1"] late
  have "\<exists>s'. sweep (30 * Minute + 1) one_session = Some s' \<and>
      Load (chatSessions s') ''10.0.0.5'' = None"
    by blast
  moreover from sweep_evicts_exactly_idle [OF i l, of "30 * Minute"] early
  have "\<exists>s'. sweep (30 * Minute) one_session = Some s' \<and>
      Load (chatSessions s') ''10.0.0.5'' = Some (PtrChatSession 0)"
    by blast
  ultimately show ?thesis using i l late early by blast
qed

subsection \<open>The store lookup\<close>

text \<open>
  C1, as the claim states it, fails: every lookup constructs a session with a fresh
  conversation before it asks the store, so two lookups for one address construct two
  sessions (the second is dropped).
\<close>

theorem getOrCreate_constructs_every_call:
  "objects (snd (getOrCreate_calls ''10.0.0.5'' [100, 101] (init_state (Some ''key'')))) =
     [\<lparr>Session = StartChat, LastUsed = 100\<rparr>, \<lparr>Session = StartChat, LastUsed = 101\<rparr>] \<and>
   chatSessions (snd (getOrCreate_calls ''10.0.0.5'' [100, 101] (init_state (Some ''key'')))) =
     [(''10.0.0.5'', PtrChatSession 0)]"
  by (simp add: getOrCreate_def LoadOrStore_def init_state_def Let_def)

text \<open>
  C1, amended. For every address and every non-empty sequence of lookups for it, each
  lookup answers the same session: the one the store held before, or else the one the
  first lookup allocated and stored. Afterwards the store holds exactly one entry for
  the address, that session. Every lookup constructs a session, one per call.
\<close>

theorem getOrCreate_one_entity:
  assumes "store_inv s" and "nows \<noteq> []"
  shows "fst (getOrCreate_calls ip nows s) = replicate (length nows) (session_of s ip) \<and>
         Load (chatSessions (snd (getOrCreate_calls ip nows s))) ip = Some (session_of s ip) \<and>
         length (filter (\<lambda>kv. fst kv = ip) (chatSessions (snd (getOrCreate_calls ip nows s)))) = 1 \<and>
         length (objects (snd (getOrCreate_calls ip nows s))) = length (objects s) + length nows"
proof -
  let ?m = "chatSessions (snd (getOrCreate_calls ip nows s))"
  note st = getOrCreate_calls_state[of ip nows s]
  from assms(1) have d: "distinct (map fst (chatSessions s))" by (simp add: store_inv_def)
  have m: "map_of ?m ip = Some (session_of s ip)" and d': "distinct (map fst ?m)"
    using st assms(2) d by simp_all
  from filter_key_distinct[OF d' m] have "length (filter (\<lambda>kv. fst kv = ip) ?m) = 1" by simp
  with st m show ?thesis by (simp add: Load_def)
qed

theorem getOrCreate_one_entity_witness:
  "store_inv (init_state (Some ''key'')) \<and> [100, 101, 102] \<noteq> ([] :: int list) \<and>
   fst (getOrCreate_calls ''10.0.0.5'' [100, 101, 102] (init_state (Some ''key''))) =
     [PtrChatSession 0, PtrChatSession 0, PtrChatSession 0] \<and>
   Load (chatSessions (snd (getOrCreate_calls ''10.0.0.5'' [100, 101, 102] (init_state (Some ''key'')))))
     ''10.0.0.5'' = Some (PtrChatSession 0) \<and>
   length (filter (\<lambda>kv. fst kv = ''10.0.0.5'')
     (chatSessions (snd (getOrCreate_calls ''10.0.0.5'' [100, 101, 102] (init_state (Some ''key'')))))) = 1 \<and>
   length (objects (snd (getOrCreate_calls ''10.0.0.5'' [100, 101, 102] (init_state (Some ''key''))))) = 3"
proof -
  have i: "store_inv (init_state (Some ''key''))" by (rule init_inv)
  have n: "[100, 101, 102] \<noteq> ([] :: int list)" by simp
  have e: "session_of (init_state (Some ''key'')) ''10.0.0.5'' = PtrChatSession 0"
    by (simp add: session_of_def Load_def init_state_def)
  have o: "length (objects (init_state (Some ''key''))) = 0" by (simp add: init_state_def)
  from getOrCreate_one_entity [OF i n, of "''10.0.0.5''"] i show ?thesis
    unfolding e o by (simp add: numeral_3_eq_3)
qed

subsection \<open>A provider call that fails\<close>

text \<open>
  C2, as the claim states it, fails: \<open>LastUsed\<close> is assigned before the message is
  sent, so an exchange whose provider call fails has refreshed it. The session of
  10.0.0.5 was last used at 0; after the failed exchange it reads five minutes and
  one nanosecond.
\<close>

theorem provider_failure_refreshes_LastUsed:
  "LastUsed (objects one_session ! 0) = 0 \<and>
   fst (handleChat (request ''10.0.0.5'' ''hi'') provider_down one_session) =
     Responded \<lparr>status = 500,
       json = [(''error'', ''Error sending message: context deadline exceeded'')]\<rparr> \<and>
   Load (chatSessions (snd (handleChat (request ''10.0.0.5'' ''hi'') provider_down one_session)))
     ''10.0.0.5'' = Some (PtrChatSession 0) \<and>
   LastUsed (objects (snd (handleChat (request ''10.0.0.5'' ''hi'') provider_down one_session)) ! 0) =
     300000000001"
  by (simp add: handleChat_def generateGeminiResponse_def chat_def getOrCreate_def
      LoadOrStore_def exchange_def request_def provider_down_def one_session_def Printf_def
      Errorf_w_def Load_def Minute_def StatusInternalServerError_def Let_def)

text \<open>
  C2, amended. For every session and every exchange that reaches the provider and
  whose provider call fails, the answer is the error response 500 with the text
  \<open>Error sending message: \<close> followed by the provider's error, the entry of the address
  remains in the store with the same session, and the session's \<open>LastUsed\<close> is the
  reading of the clock taken just before the message was sent.
\<close>

theorem provider_failure_keeps_session:
  assumes "store_inv s" and "GEMINI_API_KEY s = Some apiKey" and "clientErr s = None"
    and "client s = None \<longrightarrow> (\<exists>cl. NewClient w apiKey = Inr cl)"
    and "BodyParser c = Inr message"
    and "Load (chatSessions s) (IP c) = Some (PtrChatSession a)"
    and "snd (SendMessage w (Session (objects s ! a)) message) = Inl err"
  shows "fst (handleChat c w s) =
           Responded \<lparr>status = 500, json = [(''error'', ''Error sending message: '' @ Error err)]\<rparr> \<and>
         Load (chatSessions (snd (handleChat c w s))) (IP c) = Some (PtrChatSession a) \<and>
         LastUsed (objects (snd (handleChat c w s)) ! a) = Now_used w"
proof -
  from assms(6) have m: "map_of (chatSessions s) (IP c) = Some (PtrChatSession a)"
    by (simp add: Load_def)
  from generateGeminiResponse_fails[OF assms(1-4) m assms(7)]
  have "fst (handleChat c w s) =
           Responded \<lparr>status = 500, json = [(''error'', ''Error sending message: '' @ Error err)]\<rparr>"
    by (auto simp: handleChat_def Let_def assms(5) Errorf_w_def StatusInternalServerError_def
        split: prod.splits)
  moreover from generateGeminiResponse_touches[OF assms(1-4), of "IP c" message] m
  have "Load (chatSessions (snd (handleChat c w s))) (IP c) = Some (PtrChatSession a) \<and>
         LastUsed (objects (snd (handleChat c w s)) ! a) = Now_used w"
    by (auto simp: handleChat_fields assms(5) Load_def)
  ultimately show ?thesis by simp
qed

theorem provider_failure_keeps_session_witness:
  "store_inv one_session \<and> GEMINI_API_KEY one_session = Some ''key'' \<and>
   clientErr one_session = None \<and> client one_session = Some (Client ''key'') \<and>
   BodyParser (request ''10.0.0.5'' ''hi'') = Inr ''hi'' \<and>
   Load (chatSessions one_session) (IP (request ''10.0.0.5'' ''hi'')) = Some (PtrChatSession 0) \<and>
   snd (SendMessage provider_down (Session (objects one_session ! 0)) ''hi'') =
     Inl (errorString ''context deadline exceeded'') \<and>
   fst (handleChat (request ''10.0.0.5'' ''hi'') provider_down one_session) =
     Responded \<lparr>status = 500,
       json = [(''error'', ''Error sending message: context deadline exceeded'')]\<rparr> \<and>
   Load (chatSessions (snd (handleChat (request ''10.0.0.5'' ''hi'') provider_down one_session)))
     ''10.0.0.5'' = Some (PtrChatSession 0) \<and>
   LastUsed (objects (snd (handleChat (request ''10.0.0.5'' ''hi'') provider_down one_session)) ! 0) =
     Now_used provider_down"
proof -
  have i: "store_inv one_session" by (simp add: store_inv_def one_session_def)
  have k: "GEMINI_API_KEY one_session = Some ''key''" by (simp add: one_session_def)
  have e: "clientErr one_session = None" by (simp add: one_session_def)
  have cl: "client one_session = Some (Client ''key'')" by (simp add: one_session_def)
  then have c: "client one_session = None \<longrightarrow> (\<exists>cl. NewClient provider_down ''key'' = Inr cl)"
    by simp
  have b: "BodyParser (request ''10.0.0.5'' ''hi'') = Inr ''hi''" by (simp add: request_def)
  have l: "Load (chatSessions one_session) (IP (request ''10.0.0.5'' ''hi'')) = Some (PtrChatSession 0)"
    by (simp add: Load_def one_session_def request_def)
  have f: "snd (SendMessage provider_down (Session (objects one_session ! 0)) ''hi'') =
     Inl (errorString ''context deadline exceeded'')"
    by (simp add: provider_down_def)
  have ip: "IP (request ''10.0.0.5'' ''hi'') = ''10.0.0.5''" by (simp add: request_def)
  from provider_failure_keeps_session [OF i k e c b l f] i k e cl b l f show ?thesis
    unfolding ip by simp
qed

text \<open>
  C7. For distinct addresses A and B, an exchange for A whose provider call fails
  leaves B as it was: B is in the store after it exactly when it was before, with the
  same session, and that session (its \<open>LastUsed\<close> and its conversation) is unchanged.
\<close>

theorem provider_failure_isolated:
  assumes "store_inv s" and "A \<noteq> B"
    and "fst (generateGeminiResponse A userInput w s) =
           Return [] (Some (Errorf_w ''Error sending message: '' err))"
  shows "Load (chatSessions (snd (generateGeminiResponse A userInput w s))) B = Load (chatSessions s) B \<and>
         (\<forall>b. Load (chatSessions s) B = Some (PtrChatSession b) \<longrightarrow>
            objects (snd (generateGeminiResponse A userInput w s)) ! b = objects s ! b)"
  using generateGeminiResponse_frame [OF assms(1,2)] by (simp add: Load_def)

theorem provider_failure_isolated_witness:
  "store_inv two_sessions \<and> ''10.0.0.5'' \<noteq> ''10.0.0.6'' \<and>
   fst (generateGeminiResponse ''10.0.0.5'' ''hi'' provider_down two_sessions) =
     Return [] (Some (Errorf_w ''Error sending message: '' (errorString ''context deadline exceeded''))) \<and>
   Load (chatSessions (snd (generateGeminiResponse ''10.0.0.5'' ''hi'' provider_down two_sessions))) ''10.0.0.6'' =
     Some (PtrChatSession 1) \<and>
   objects (snd (generateGeminiResponse ''10.0.0.5'' ''hi'' provider_down two_sessions)) ! 1 =
     \<lparr>Session = \<lparr>History = [turn ''user'' ''arm the alarm'', turn ''model'' ''ok'']\<rparr>, LastUsed = 7\<rparr>"
proof -
  have i: "store_inv two_sessions"
    by (simp add: store_inv_def two_sessions_def)
  have d: "''10.0.0.5'' \<noteq> ''10.0.0.6''" by simp
  have f: "fst (generateGeminiResponse ''10.0.0.5'' ''hi'' provider_down two_sessions) =
     Return [] (Some (Errorf_w ''Error sending message: '' (errorString ''context deadline exceeded'')))"
    by (simp add: generateGeminiResponse_def chat_def getOrCreate_def LoadOrStore_def
        exchange_def provider_down_def two_sessions_def Let_def)
  have l: "Load (chatSessions two_sessions) ''10.0.0.6'' = Some (PtrChatSession 1)"
    by (simp add: Load_def two_sessions_def)
  have o: "objects two_sessions ! 1 =
     \<lparr>Session = \<lparr>History = [turn ''user'' ''arm the alarm'', turn ''model'' ''ok'']\<rparr>, LastUsed = 7\<rparr>"
    by (simp add: two_sessions_def)
  from provider_failure_isolated [OF i d f] l o i f show ?thesis by simp
qed

subsection \<open>Requests with an empty message\<close>




subsection \<open>The time of last use\<close>

text \<open>
  Requests and sweep cycles served one after another, each with its readings of the
  clock before those of the next, and no session used after the first reading: the
  run goes through, every session that exists keeps existing as an object, and its
  \<open>LastUsed\<close> at the end is at least what it was at the start.
\<close>

lemma LastUsed_in_turn:
  assumes "store_inv s" and "not_after t s" and "clock_mono t ops" and "a < length (objects s)"
  shows "\<exists>s'. run ops s = Some s' \<and> a < length (objects s') \<and>
           LastUsed (objects s ! a) \<le> LastUsed (objects s' ! a)"
  using assms
proof (induction ops arbitrary: s t)
  case Nil
  then show ?case by simp
next
  case (Cons x xs)
  from Cons.prems(2,4) have le: "LastUsed (objects s ! a) \<le> t"
    by (simp add: not_after_def list_all_length)
  show ?case
  proof (cases x)
    case (Chat c w)
    let ?s1 = "snd (handleChat c w s)"
    from Cons.prems(3) Chat have ck: "t \<le> Now_new w" "Now_new w \<le> Now_used w" "clock_mono (Now_used w) xs"
      by simp_all
    from handleChat_old[OF Cons.prems(4), of c w] le ck
    have a1: "a < length (objects ?s1)" and m1: "LastUsed (objects s ! a) \<le> LastUsed (objects ?s1 ! a)"
      by auto
    from Cons.IH[OF handleChat_inv[OF Cons.prems(1)] handleChat_not_after[OF Cons.prems(2) ck(1,2)] ck(3) a1]
    obtain s' where "run xs ?s1 = Some s'" "a < length (objects s')"
      "LastUsed (objects ?s1 ! a) \<le> LastUsed (objects s' ! a)" by blast
    with m1 show ?thesis by (auto simp: Chat)
  next
    case (Sweep now)
    from Cons.prems(3) Sweep have ck: "t \<le> now" "clock_mono now xs" by simp_all
    from sweep_inv[OF Cons.prems(1), of now] obtain s1 where
      s1: "sweep now s = Some s1" "store_inv s1" "objects s1 = objects s"
      by (auto simp: same_process_def)
    have na: "not_after now s1" using Cons.prems(2) ck(1)
      by (auto simp: not_after_def s1(3) list_all_iff)
    from Cons.prems(4) have a1: "a < length (objects s1)" by (simp add: s1(3))
    from Cons.IH[OF s1(2) na ck(2) a1] show ?thesis by (simp add: Sweep s1(1) s1(3))
  qed
qed

text \<open>
  A request answered 200 has left the session of its address, the one it had before
  if it had one, with \<open>LastUsed\<close> at the reading of the clock taken before the message
  was sent.
\<close>

lemma successful_exchange_refreshes:
  assumes "store_inv s"
    and "fst (handleChat c w s) = Responded \<lparr>status = 200, json = j\<rparr>"
  shows "\<exists>a. Load (chatSessions (snd (handleChat c w s))) (IP c) = Some (PtrChatSession a) \<and>
           LastUsed (objects (snd (handleChat c w s)) ! a) = Now_used w \<and>
           (\<forall>v. Load (chatSessions s) (IP c) = Some v \<longrightarrow> v = PtrChatSession a)"
proof -
  from assms(2) obtain m where b: "BodyParser c = Inr m"
    by (cases "BodyParser c") (auto simp: handleChat_def StatusBadRequest_def)
  from assms(2) b obtain r where g: "fst (generateGeminiResponse (IP c) m w s) = Return r None"
    by (auto simp: handleChat_def Let_def StatusInternalServerError_def
        split: prod.splits result.splits option.splits)
  from g obtain k where k: "GEMINI_API_KEY s = Some k"
    by (cases "GEMINI_API_KEY s") (auto simp: generateGeminiResponse_no_key)
  from g have "fst (chat (IP c) m w (connect k w s)) = Return r None"
    by (simp add: generateGeminiResponse_connect[OF k])
  then have e: "clientErr (connect k w s) = None"
    by (cases "clientErr (connect k w s)") (auto simp: chat_def)
  have i: "store_inv (connect k w s)" using assms(1) by (simp add: connect_inv)
  from chat_touches[OF i e, of "IP c" m w] show ?thesis
    by (auto simp: handleChat_fields b generateGeminiResponse_connect[OF k] Load_def)
qed

text \<open>
  C5. The program does not keep \<open>LastUsed\<close> from moving backwards when two requests
  of one address overlap. The session of 10.0.0.5 is at address 0. Both handlers pass
  the store lookup (the clock reads 150, then 160) and get that session. The first
  reads the clock for line 238 (200), then the second reads it (201) and stores, then
  the first stores: \<open>LastUsed\<close> is 201 and then 200, though every reading of the clock
  was at least the one before.
\<close>

theorem overlapping_requests_move_LastUsed_back:
  "fst (getOrCreate ''10.0.0.5'' 150 one_session) = PtrChatSession 0 \<and>
   fst (getOrCreate ''10.0.0.5'' 160 (snd (getOrCreate ''10.0.0.5'' 150 one_session))) =
     PtrChatSession 0 \<and>
   LastUsed (objects (store_238 0 201 both_looked_up) ! 0) = 201 \<and>
   LastUsed (objects (store_238 0 200 (store_238 0 201 both_looked_up)) ! 0) = 200"
  by (simp add: both_looked_up_def store_238_def getOrCreate_def LoadOrStore_def one_session_def Let_def)

subsection \<open>A client that cannot be created\<close>

text \<open>
  Calls served one after another: when the first creation of the provider client
  fails, the call answers the error wrapped, and after any run of requests and sweeps
  every call answers the same wrapped error, changes nothing, and \<open>genai.NewClient\<close>
  has been called once.
\<close>

lemma client_error_cached_in_turn:
  assumes "store_inv s" and "GEMINI_API_KEY s = Some apiKey"
    and "client s = None" and "clientErr s = None"
    and "NewClient w0 apiKey = Inl err"
  shows "\<exists>s1 s2.
           generateGeminiResponse ip0 userInput0 w0 s =
             (Return [] (Some (Errorf_w ''Error creating AI client: '' err)), s1) \<and>
           run ops s1 = Some s2 \<and>
           clientErr s2 = Some err \<and>
           newClientCalls s2 = Suc (newClientCalls s) \<and>
           generateGeminiResponse ip userInput w s2 =
             (Return [] (Some (Errorf_w ''Error creating AI client: '' err)), s2) \<and>
           Unwrap (Errorf_w ''Error creating AI client: '' err) = Some err"
proof -
  let ?s1 = "s\<lparr>client := None, clientErr := Some err, newClientCalls := Suc (newClientCalls s)\<rparr>"
  have g: "generateGeminiResponse ip0 userInput0 w0 s =
             (Return [] (Some (Errorf_w ''Error creating AI client: '' err)), ?s1)"
    using assms(2-5) by (simp add: generateGeminiResponse_def)
  have i: "store_inv ?s1" using assms(1) by (simp add: store_inv_def)
  have e: "clientErr ?s1 = Some err" by simp
  from run_clientErr[OF i e, of ops] obtain s2 where
    s2: "run ops ?s1 = Some s2" "clientErr s2 = Some err"
        "newClientCalls s2 = newClientCalls ?s1" "GEMINI_API_KEY s2 = GEMINI_API_KEY ?s1"
    by blast
  have k: "GEMINI_API_KEY s2 = Some apiKey" using s2(4) assms(2) by simp
  from generateGeminiResponse_cached[OF s2(2) k] g s2 show ?thesis
    by (simp add: Errorf_w_def)
qed

text \<open>
  C6. The program does not keep the error of a failed creation when two first calls
  overlap. Both handlers pass the test of line 216 before either assigns. The creation
  of the first fails and line 217 stores the error; the creation of the second
  succeeds and line 217 stores the client and a nil error over it.
  \<open>genai.NewClient\<close> has run twice, the error is gone, and a call that starts
  afterwards is answered by the provider.
\<close>

theorem overlapping_first_calls_lose_cached_error:
  "test_216 (init_state (Some ''key'')) \<and>
   clientErr (assign_217 ''key'' client_down (init_state (Some ''key''))) =
     Some (errorString ''invalid API key'') \<and>
   clientErr both_assigned = None \<and>
   newClientCalls both_assigned = 2 \<and>
   fst (generateGeminiResponse ''10.0.0.5'' ''hi'' provider_up both_assigned) = Return ''ok'' None"
  by (simp add: both_assigned_def test_216_def assign_217_def init_state_def client_down_def
      provider_up_def generateGeminiResponse_def chat_def getOrCreate_def LoadOrStore_def
      exchange_def first_text_def answer_def Let_def)

subsection \<open>Values of the store\<close>

text \<open>
  C9. After any run from start-up the run has gone through, every value of the store
  is a pointer to an allocated \<open>ChatSession\<close>, and the log holds no line of the
  sweeper's branch for a value of another type: that branch is never taken. On a
  value of another type the visitor logs the line and answers that the iteration goes
  on, and \<open>Range\<close> carries on with the remaining entries.
\<close>

theorem malformed_entry_unreachable:
  "(\<exists>s. run ops (init_state key) = Some s \<and>
        list_all (valid_ptr (length (objects s))) (map snd (chatSessions s)) \<and>
        (\<forall>k. ''Unexpected value type in chatSessions for key '' @ k \<notin> set (log_output s))) \<and>
   visit now k NotChatSession s0 =
     Some (True, Printf (''Unexpected value type in chatSessions for key '' @ k) s0) \<and>
   Range (visit now) ((k, NotChatSession) # kvs) s0 =
     Range (visit now) kvs (Printf (''Unexpected value type in chatSessions for key '' @ k) s0)"
proof -
  from run_inv[OF init_inv, of ops key] obtain s where
    s: "run ops (init_state key) = Some s" "store_inv s" by blast
  have "''Unexpected value type in chatSessions for key '' @ k' \<notin> set (log_output s)" for k'
  proof
    assume "''Unexpected value type in chatSessions for key '' @ k' \<in> set (log_output s)"
    from run_log[OF init_inv s(1) this] show False by (simp add: init_state_def)
  qed
  with s show ?thesis by (auto simp: store_inv_def)
qed

subsection \<open>Errors shown to the client\<close>

text \<open>
  C10. Whenever \<open>generateGeminiResponse\<close> returns an error, \<open>handleChat\<close> answers 500
  with the JSON field \<open>error\<close> holding exactly the text of that error; with no API key
  in the environment that text is \<open>GEMINI_API_KEY environment variable not set\<close>.
\<close>

theorem handleChat_error_verbatim:
  assumes "BodyParser c = Inr message"
  shows "(fst (generateGeminiResponse (IP c) message w s) = Return response (Some err) \<longrightarrow>
            fst (handleChat c w s) =
              Responded \<lparr>status = StatusInternalServerError, json = [(''error'', Error err)]\<rparr>) \<and>
         (GEMINI_API_KEY s = None \<longrightarrow>
            fst (handleChat c w s) =
              Responded \<lparr>status = 500,
                json = [(''error'', ''GEMINI_API_KEY environment variable not set'')]\<rparr>)"
  using assms
  by (auto simp: handleChat_def Let_def generateGeminiResponse_no_key Errorf_def
      StatusInternalServerError_def split: prod.splits)

theorem handleChat_error_verbatim_witness:
  "BodyParser (request ''10.0.0.5'' ''hi'') = Inr ''hi'' \<and>
   fst (generateGeminiResponse (IP (request ''10.0.0.5'' ''hi'')) ''hi'' provider_down one_session) =
     Return [] (Some (Errorf_w ''Error sending message: '' (errorString ''context deadline exceeded''))) \<and>
   fst (handleChat (request ''10.0.0.5'' ''hi'') provider_down one_session) =
     Responded \<lparr>status = 500,
       json = [(''error'', ''Error sending message: context deadline exceeded'')]\<rparr> \<and>
   GEMINI_API_KEY (init_state None) = None \<and>
   fst (handleChat (request ''10.0.0.5'' ''hi'') provider_up (init_state None)) =
     Responded \<lparr>status = 500,
       json = [(''error'', ''GEMINI_API_KEY environment variable not set'')]\<rparr>"
proof -
  have b: "BodyParser (request ''10.0.0.5'' ''hi'') = Inr ''hi''"
    by (simp add: request_def)
  have g: "fst (generateGeminiResponse (IP (request ''10.0.0.5'' ''hi'')) ''hi'' provider_down one_session) =
     Return [] (Some (Errorf_w ''Error sending message: '' (errorString ''context deadline exceeded'')))"
    by (simp add: request_def generateGeminiResponse_def chat_def getOrCreate_def LoadOrStore_def
        exchange_def provider_down_def one_session_def Let_def)
  have k: "GEMINI_API_KEY (init_state None) = None"
    by (simp add: init_state_def)
  from handleChat_error_verbatim [OF b, of provider_down one_session "[]"
      "Errorf_w ''Error sending message: '' (errorString ''context deadline exceeded'')"] g
  have "fst (handleChat (request ''10.0.0.5'' ''hi'') provider_down one_session) =
     Responded \<lparr>status = 500,
       json = [(''error'', ''Error sending message: context deadline exceeded'')]\<rparr>"
    by (simp add: Errorf_w_def StatusInternalServerError_def)
  moreover from handleChat_error_verbatim [OF b, of provider_up "init_state None"] k
  have "fst (handleChat (request ''10.0.0.5'' ''hi'') provider_up (init_state None)) =
     Responded \<lparr>status = 500,
       json = [(''error'', ''GEMINI_API_KEY environment variable not set'')]\<rparr>"
    by simp
  ultimately show ?thesis using b g k by simp
qed

end
